theory Spec2Isabelle
  imports Complex_Main
begin

unbundle bit_operations_syntax

section \<open>The live monocular capture loop (Examples/Monocular/mono\_live.cc)\<close>

text \<open>
  The program is a single \<^verbatim>\<open>main\<close>: it parses the command line, opens one of two
  capture backends, creates the tracking engine, and then reads, stamps, preprocesses
  and feeds frames until a read fails or a quit key is seen; afterwards it shuts the
  engine down and saves the keyframe trajectory.

  Everything \<^verbatim>\<open>main\<close> receives from outside (the arguments, the results of the
  capture calls, the clock, the keyboard, the engine's image scale) is a field of an
  environment; everything it does to the outside (every call of the capture object, of
  the engine, of the GUI, every message) is an event of a trace, in program order.

  The calls into OpenCV and into the engine are taken to return normally: the program
  has no handler for an exception of theirs, and none is modelled. Of their effects the
  model keeps what the program's control flow and the trace depend on.
\<close>

subsection \<open>Single-precision arithmetic of the rescale step\<close>

text \<open>
  \<^verbatim>\<open>imageScale\<close> is a \<^verbatim>\<open>float\<close>, and \<^verbatim>\<open>proc.cols * imageScale\<close> converts the
  \<^verbatim>\<open>int\<close> to \<^verbatim>\<open>float\<close> and multiplies in single precision. A finite
  single-precision number is \<open>m * 2 ^ e\<close> with \<open>\<bar>m\<bar> < 2 ^ 24\<close> and
  \<open>- 149 \<le> e \<le> 104\<close>; \<open>Finite m e\<close> stands for it. Expressions of type
  \<^verbatim>\<open>float\<close> are evaluated in single precision, as on the ARM and x86-64 targets.
\<close>

datatype f32 = Finite int int | Infinite bool | NaN

fun f32_wf :: "f32 \<Rightarrow> bool" where
  "f32_wf (Finite m e) = (\<bar>m\<bar> < 2 ^ 24 \<and> - 149 \<le> e \<and> e \<le> 104)"
| "f32_wf (Infinite neg) = True"
| "f32_wf NaN = True"

text \<open>The number of binary digits of a positive integer (0 for the others).\<close>

function bitlen :: "int \<Rightarrow> nat" where
  "bitlen n = (if n \<le> 0 then 0 else Suc (bitlen (n div 2)))"
  by pat_completeness auto
termination
  by (relation "measure nat") auto

declare bitlen.simps [simp del]

text \<open>
  Rounding of the exact value \<open>m * 2 ^ e\<close> to 24 significant bits, to nearest, ties to
  even (the default rounding mode); a result of magnitude \<open>2 ^ 128\<close> or more is an
  infinity. No exponent below \<open>- 149\<close> arises, since one factor of every product
  here is an integer.
\<close>

definition f32_round :: "int \<Rightarrow> int \<Rightarrow> f32" where
  "f32_round m e =
     (let k = bitlen \<bar>m\<bar> in
      if k \<le> 24 then
        (if 0 \<le> e \<and> 2 ^ 128 \<le> \<bar>m\<bar> * 2 ^ nat e then Infinite (m < 0) else Finite m e)
      else
        (let sh = k - 24;
             q = \<bar>m\<bar> div 2 ^ sh;
             r = \<bar>m\<bar> mod 2 ^ sh;
             half = 2 ^ (sh - 1);
             q' = (if half < r \<or> (r = half \<and> odd q) then q + 1 else q);
             e' = e + int sh
         in if 0 \<le> e' \<and> 2 ^ 128 \<le> q' * 2 ^ nat e' then Infinite (m < 0)
            else Finite (sgn m * q') e'))"

definition f32_of_int :: "int \<Rightarrow> f32" where
  "f32_of_int c = f32_round c 0"

fun f32_mul :: "f32 \<Rightarrow> f32 \<Rightarrow> f32" where
  "f32_mul (Finite m1 e1) (Finite m2 e2) = f32_round (m1 * m2) (e1 + e2)"
| "f32_mul (Finite m e) (Infinite neg) =
     (if m = 0 then NaN else Infinite (neg \<noteq> (m < 0)))"
| "f32_mul (Infinite neg) (Finite m e) =
     (if m = 0 then NaN else Infinite (neg \<noteq> (m < 0)))"
| "f32_mul (Infinite n1) (Infinite n2) = Infinite (n1 \<noteq> n2)"
| "f32_mul NaN y = NaN"
| "f32_mul x NaN = NaN"

text \<open>\<^verbatim>\<open>imageScale != 1.0f\<close>\<close>

fun f32_is_one :: "f32 \<Rightarrow> bool" where
  "f32_is_one (Finite m e) = (if 0 \<le> e then m * 2 ^ nat e = 1 else m = 2 ^ nat (- e))"
| "f32_is_one (Infinite neg) = False"
| "f32_is_one NaN = False"

text \<open>
  \<^verbatim>\<open>std::lround\<close> rounds to the nearest integer, halfway cases away from zero, and
  returns a \<^verbatim>\<open>long\<close> (64 bits here). For an argument that is not finite or whose
  rounding does not fit, the C library leaves the result unspecified: the environment
  supplies it as \<open>unspec\<close>.
\<close>

fun lround :: "(f32 \<Rightarrow> int) \<Rightarrow> f32 \<Rightarrow> int" where
  "lround unspec (Finite m e) =
     (let v = (if 0 \<le> e then m * 2 ^ nat e
               else (let d = 2 ^ nat (- e); q = \<bar>m\<bar> div d; r = \<bar>m\<bar> mod d
                     in sgn m * (if d \<le> 2 * r then q + 1 else q)))
      in if - (2 ^ 63) \<le> v \<and> v < 2 ^ 63 then v else unspec (Finite m e))"
| "lround unspec (Infinite neg) = unspec (Infinite neg)"
| "lround unspec NaN = unspec NaN"

text \<open>\<^verbatim>\<open>static_cast<int>\<close> of a \<^verbatim>\<open>long\<close>: the low 32 bits, read as two's complement.\<close>

definition int_of_long :: "int \<Rightarrow> int" where
  "int_of_long v = (v + 2 ^ 31) mod 2 ^ 32 - 2 ^ 31"

text \<open>\<^verbatim>\<open>static_cast<int>(std::lround(n * imageScale))\<close>\<close>

definition scaled_dim :: "(f32 \<Rightarrow> int) \<Rightarrow> int \<Rightarrow> f32 \<Rightarrow> int" where
  "scaled_dim unspec n s = int_of_long (lround unspec (f32_mul (f32_of_int n) s))"

subsection \<open>Frames and preprocessing\<close>

text \<open>
  Of a \<^verbatim>\<open>cv::Mat\<close> the model keeps the dimensions and the channel count; the pixels
  play no part in the control flow.
\<close>

record frame =
  cols :: int
  rows :: int
  channels :: int

text \<open>\<^verbatim>\<open>Mat::empty()\<close>: no element.\<close>

definition frame_empty :: "frame \<Rightarrow> bool" where
  "frame_empty f = (cols f = 0 \<or> rows f = 0)"

text \<open>\<^verbatim>\<open>cv::cvtColor(frame, proc, cv::COLOR_BGR2GRAY)\<close>: same size, one channel.\<close>

definition cvtColor_BGR2GRAY :: "frame \<Rightarrow> frame" where
  "cvtColor_BGR2GRAY f = f\<lparr>channels := 1\<rparr>"

text \<open>\<^verbatim>\<open>cv::resize(proc, proc, cv::Size(w, h))\<close>: the given size, same channels.\<close>

definition resize :: "frame \<Rightarrow> int \<Rightarrow> int \<Rightarrow> frame" where
  "resize f w h = f\<lparr>cols := w, rows := h\<rparr>"

text \<open>Lines 98 to 102: the optional grayscale conversion.\<close>

definition to_gray :: "bool \<Rightarrow> frame \<Rightarrow> frame" where
  "to_gray forceGray f = (if forceGray then cvtColor_BGR2GRAY f else f)"

text \<open>Lines 105 to 109: the optional rescale.\<close>

definition rescale :: "(f32 \<Rightarrow> int) \<Rightarrow> f32 \<Rightarrow> frame \<Rightarrow> frame" where
  "rescale unspec imageScale p =
     (if \<not> f32_is_one imageScale then
        (let w = scaled_dim unspec (cols p) imageScale;
             h = scaled_dim unspec (rows p) imageScale
         in if 0 < w \<and> 0 < h then resize p w h else p)
      else p)"

definition preprocess :: "(f32 \<Rightarrow> int) \<Rightarrow> bool \<Rightarrow> f32 \<Rightarrow> frame \<Rightarrow> frame" where
  "preprocess unspec forceGray imageScale f = rescale unspec imageScale (to_gray forceGray f)"

subsection \<open>Environment and trace\<close>

text \<open>\<^verbatim>\<open>cap.read(frame)\<close> returns false, or true with the frame it stored.\<close>

datatype read_result = ReadFalse | ReadTrue frame

text \<open>
  What one pass of the loop receives: the result of the read, the reading of
  \<^verbatim>\<open>steady_clock::now()\<close> (in clock ticks), and the value of \<^verbatim>\<open>cv::waitKey(1)\<close>.
\<close>

record stimulus =
  st_read :: read_result
  st_now :: int
  st_key :: int

record env =
  argv :: "string list"
  gst_open_ok :: bool
  v4l2_open_ok :: bool
  image_scale :: f32
  lround_unspec :: "f32 \<Rightarrow> int"
  clock_t0 :: int
  script :: "stimulus list"

datatype cap_prop = CAP_PROP_FRAME_WIDTH | CAP_PROP_FRAME_HEIGHT | CAP_PROP_FPS

datatype event =
    Usage string
  | OpenGStreamer string
  | OpenV4L2 int
  | ErrOpenGStreamer
  | ErrOpenV4L2
  | CapSet cap_prop int
  | SystemCreate string string
  | GetImageScale
  | Banner
  | Read read_result
  | ErrGrab
  | TrackMonocular frame int
  | Imshow frame
  | WaitKey int
  | Shutdown
  | SaveKeyFrameTrajectoryTUM string
  | CapRelease

text \<open>
  How far the process got: it returned from \<^verbatim>\<open>main\<close> with an exit code, or it is
  still in the loop when the script of stimuli is used up.
\<close>

datatype status = Exited int | Running

subsection \<open>The program\<close>

text \<open>Lines 42 to 48: the flags after the two positional paths.\<close>

fun parse_flags :: "string list \<Rightarrow> bool \<times> bool \<Rightarrow> bool \<times> bool" where
  "parse_flags [] (forceGray, useGStreamer) = (forceGray, useGStreamer)"
| "parse_flags (arg # args) (forceGray, useGStreamer) =
     (if arg = ''--gray'' then parse_flags args (True, useGStreamer)
      else if arg = ''--gstreamer'' then parse_flags args (forceGray, True)
      else parse_flags args (forceGray, useGStreamer))"

definition pipeline :: string where
  "pipeline = ''libcamerasrc ! video/x-raw,format=RGB,width=640,height=480,framerate=30/1 ''
            @ ''! videoconvert ! video/x-raw,format=BGR ! appsink drop=1''"

text \<open>\<^verbatim>\<open>key == 'q' || key == 27\<close> after \<^verbatim>\<open>cv::waitKey(1) & 0xFF\<close>\<close>

definition quit_key :: "int \<Rightarrow> bool" where
  "quit_key k = (let key = k AND 255 in key = 113 \<or> key = 27)"

text \<open>
  Lines 85 to 118. The result is the trace of the loop and whether the loop was left
  (by a \<^verbatim>\<open>break\<close>); with the stimuli used up it has not been left.
\<close>

fun capture_loop :: "(f32 \<Rightarrow> int) \<Rightarrow> bool \<Rightarrow> f32 \<Rightarrow> int \<Rightarrow> stimulus list \<Rightarrow> event list \<times> bool" where
  "capture_loop unspec forceGray imageScale t0 [] = ([], False)"
| "capture_loop unspec forceGray imageScale t0 (x # xs) =
     (case st_read x of
        ReadFalse \<Rightarrow> ([Read ReadFalse, ErrGrab], True)
      | ReadTrue f \<Rightarrow>
          if frame_empty f then ([Read (ReadTrue f), ErrGrab], True)
          else
            (let tframe = st_now x - t0;
                 proc = preprocess unspec forceGray imageScale f;
                 evs = [Read (ReadTrue f), TrackMonocular proc tframe, Imshow f, WaitKey (st_key x)]
             in if quit_key (st_key x) then (evs, True)
                else (let (tr, left) = capture_loop unspec forceGray imageScale t0 xs
                      in (evs @ tr, left))))"

text \<open>
  Lines 50 to 73: the capture object and the open of the selected backend. The result
  is the trace and whether the open succeeded.
\<close>

definition open_capture :: "env \<Rightarrow> bool \<Rightarrow> event list \<times> bool" where
  "open_capture E useGStreamer =
     (if useGStreamer then
        (if \<not> gst_open_ok E then ([OpenGStreamer pipeline, ErrOpenGStreamer], False)
         else ([OpenGStreamer pipeline], True))
      else
        (if \<not> v4l2_open_ok E then ([OpenV4L2 0, ErrOpenV4L2], False)
         else ([OpenV4L2 0, CapSet CAP_PROP_FRAME_WIDTH 640,
                CapSet CAP_PROP_FRAME_HEIGHT 480, CapSet CAP_PROP_FPS 30], True)))"

text \<open>
  Lines 31 to 123. Where \<^verbatim>\<open>main\<close> returns after line 50, the capture object goes out
  of scope and its destructor releases the device: \<open>CapRelease\<close>.
\<close>

definition main :: "env \<Rightarrow> event list \<times> status" where
  "main E =
     (if length (argv E) < 3 then ([Usage (case argv E of [] \<Rightarrow> [] | a # _ \<Rightarrow> a)], Exited 1)
      else
        (let voc_path = argv E ! 1;
             settings_path = argv E ! 2;
             (forceGray, useGStreamer) = parse_flags (drop 3 (argv E)) (False, False);
             (opened, ok) = open_capture E useGStreamer
         in if \<not> ok then (opened @ [CapRelease], Exited 1)
            else
              (let imageScale = image_scale E;
                   t0 = clock_t0 E;
                   (tr, left) = capture_loop (lround_unspec E) forceGray imageScale t0 (script E);
                   pre = opened @ [SystemCreate voc_path settings_path, GetImageScale, Banner] @ tr
               in if left then
                    (pre @ [Shutdown, SaveKeyFrameTrajectoryTUM ''KeyFrameTrajectory.txt'',
                            CapRelease], Exited 0)
                  else (pre, Running))))"

subsection \<open>Notions for stating the properties\<close>

text \<open>The stimuli on which the loop is left: line 87 (first two cases) and line 117.\<close>

definition read_fails :: "stimulus \<Rightarrow> bool" where
  "read_fails x = (case st_read x of ReadFalse \<Rightarrow> True | ReadTrue f \<Rightarrow> frame_empty f)"

definition leaves :: "stimulus \<Rightarrow> bool" where
  "leaves x = (read_fails x \<or> quit_key (st_key x))"

text \<open>The events of one pass of the loop whose read succeeded (lines 93 to 116).\<close>

definition pass_events :: "(f32 \<Rightarrow> int) \<Rightarrow> bool \<Rightarrow> f32 \<Rightarrow> int \<Rightarrow> stimulus \<Rightarrow> event list" where
  "pass_events unspec forceGray imageScale t0 x =
     (case st_read x of
        ReadFalse \<Rightarrow> []
      | ReadTrue f \<Rightarrow>
          [Read (ReadTrue f),
           TrackMonocular (preprocess unspec forceGray imageScale f) (st_now x - t0),
           Imshow f, WaitKey (st_key x)])"

text \<open>The events that only the loop produces.\<close>

fun loop_event :: "event \<Rightarrow> bool" where
  "loop_event (Read r) = True"
| "loop_event ErrGrab = True"
| "loop_event (TrackMonocular p t) = True"
| "loop_event (Imshow f) = True"
| "loop_event (WaitKey k) = True"
| "loop_event e = False"

fun is_track :: "event \<Rightarrow> bool" where
  "is_track (TrackMonocular p t) = True"
| "is_track e = False"

fun is_export :: "event \<Rightarrow> bool" where
  "is_export (SaveKeyFrameTrajectoryTUM n) = True"
| "is_export e = False"

fun is_open :: "event \<Rightarrow> bool" where
  "is_open (OpenGStreamer p) = True"
| "is_open (OpenV4L2 i) = True"
| "is_open e = False"

fun is_create :: "event \<Rightarrow> bool" where
  "is_create (SystemCreate v s) = True"
| "is_create e = False"

text \<open>The timestamps fed to the engine, in the order of the calls.\<close>

fun timestamps :: "event list \<Rightarrow> int list" where
  "timestamps [] = []"
| "timestamps (TrackMonocular p t # es) = t # timestamps es"
| "timestamps (e # es) = timestamps es"

text \<open>
  A monitor for "a frame is fed before the key is polled": \<open>fed\<close> says that a frame
  was fed since the last poll; a poll without one is a violation.
\<close>

fun fed_before_poll :: "bool \<Rightarrow> event list \<Rightarrow> bool" where
  "fed_before_poll fed [] = True"
| "fed_before_poll fed (TrackMonocular p t # es) = fed_before_poll True es"
| "fed_before_poll fed (WaitKey k # es) = (fed \<and> fed_before_poll False es)"
| "fed_before_poll fed (e # es) = fed_before_poll fed es"

text \<open>The flags as the command line has them, and whether the selected open succeeds.\<close>

definition gray_flag :: "env \<Rightarrow> bool" where
  "gray_flag E = (''--gray'' \<in> set (drop 3 (argv E)))"

definition gstreamer_flag :: "env \<Rightarrow> bool" where
  "gstreamer_flag E = (''--gstreamer'' \<in> set (drop 3 (argv E)))"

definition open_ok :: "env \<Rightarrow> bool" where
  "open_ok E = (if gstreamer_flag E then gst_open_ok E else v4l2_open_ok E)"

text \<open>
  The rescale step as the specification words it: the value of a single-precision
  number as a rational, and rounding to the nearest integer (halves away from zero)
  of the exact product.
\<close>

fun f32_val :: "f32 \<Rightarrow> rat" where
  "f32_val (Finite m e) = (if 0 \<le> e then of_int m * 2 ^ nat e else of_int m / 2 ^ nat (- e))"
| "f32_val (Infinite neg) = 0"
| "f32_val NaN = 0"

definition round_nearest :: "rat \<Rightarrow> int" where
  "round_nearest x = (if 0 \<le> x then \<lfloor>x + 1 / 2\<rfloor> else - \<lfloor>- x + 1 / 2\<rfloor>)"

text \<open>
  The target size with the product as the code computes it, in single precision, and
  then (\<open>spec_dims\<close>) with the exact product.
\<close>

fun f32_finite :: "f32 \<Rightarrow> bool" where
  "f32_finite (Finite m e) = True"
| "f32_finite (Infinite neg) = False"
| "f32_finite NaN = False"

definition float_dims :: "f32 \<Rightarrow> frame \<Rightarrow> int \<times> int" where
  "float_dims s p =
     (let w = round_nearest (f32_val (f32_mul (f32_of_int (cols p)) s));
          h = round_nearest (f32_val (f32_mul (f32_of_int (rows p)) s))
      in if 0 < w \<and> 0 < h then (w, h) else (cols p, rows p))"

definition spec_dims :: "f32 \<Rightarrow> frame \<Rightarrow> int \<times> int" where
  "spec_dims s p =
     (let w = round_nearest (of_int (cols p) * f32_val s);
          h = round_nearest (of_int (rows p) * f32_val s)
      in if 0 < w \<and> 0 < h then (w, h) else (cols p, rows p))"

subsection \<open>A sample run\<close>

text \<open>
  Four frames of 640 by 480 are read, the fifth read fails; the scale is one half and
  the direct device opens.
\<close>

definition unspec_zero :: "f32 \<Rightarrow> int" where
  "unspec_zero x = 0"

definition frame_vga :: frame where
  "frame_vga = \<lparr>cols = 640, rows = 480, channels = 3\<rparr>"

definition stim :: "read_result \<Rightarrow> int \<Rightarrow> int \<Rightarrow> stimulus" where
  "stim r t k = \<lparr>st_read = r, st_now = t, st_key = k\<rparr>"

definition demo_env :: env where
  "demo_env =
     \<lparr>argv = [''mono_live'', ''ORBvoc.txt'', ''Settings.yaml''],
      gst_open_ok = False, v4l2_open_ok = True,
      image_scale = Finite 1 (- 1), lround_unspec = unspec_zero, clock_t0 = 1000,
      script = [stim (ReadTrue frame_vga) 1010 (- 1), stim (ReadTrue frame_vga) 1020 (- 1),
                stim (ReadTrue frame_vga) 1030 (- 1), stim (ReadTrue frame_vga) 1040 (- 1),
                stim ReadFalse 1050 (- 1), stim (ReadTrue frame_vga) 1060 (- 1)]\<rparr>"

text \<open>The same run, but the second pass sees the key \<^verbatim>\<open>q\<close>.\<close>

definition quit_env :: env where
  "quit_env = demo_env\<lparr>script := [stim (ReadTrue frame_vga) 1010 (- 1),
                                   stim (ReadTrue frame_vga) 1020 113,
                                   stim (ReadTrue frame_vga) 1030 (- 1)]\<rparr>"

text \<open>The sample run with \<^verbatim>\<open>--gray\<close>.\<close>

definition gray_env :: env where
  "gray_env = demo_env\<lparr>argv := argv demo_env @ [''--gray'']\<rparr>"

section \<open>Properties\<close>

subsection \<open>The loop and the ways out of main\<close>


lemma parse_flags_set:
  "parse_flags args (g, u) = (g \<or> ''--gray'' \<in> set args, u \<or> ''--gstreamer'' \<in> set args)"
  by (induction args arbitrary: g u) auto

lemma loop_Cons_fail:
  "read_fails x \<Longrightarrow> capture_loop u g s t0 (x # xs) = ([Read (st_read x), ErrGrab], True)"
  by (auto simp: read_fails_def split: read_result.splits)

lemma loop_Cons_quit:
  "\<not> read_fails x \<Longrightarrow> quit_key (st_key x) \<Longrightarrow>
   capture_loop u g s t0 (x # xs) = (pass_events u g s t0 x, True)"
  by (auto simp: read_fails_def pass_events_def split: read_result.splits)

lemma loop_Cons_pass:
  "\<not> leaves x \<Longrightarrow>
   capture_loop u g s t0 (x # xs) =
     (pass_events u g s t0 x @ fst (capture_loop u g s t0 xs), snd (capture_loop u g s t0 xs))"
  by (auto simp: leaves_def read_fails_def pass_events_def split: read_result.splits prod.splits)

lemmas loop_Cons = loop_Cons_fail loop_Cons_quit loop_Cons_pass

lemma loop_cases:
  obtains (fail) "read_fails x" | (quit) "\<not> read_fails x" "quit_key (st_key x)" | (pass) "\<not> leaves x"
  by (auto simp: leaves_def)

lemma loop_left: "snd (capture_loop u g s t0 xs) = (\<exists>x\<in>set xs. leaves x)"
proof (induction xs)
  case Nil
  show ?case by simp
next
  case (Cons x xs)
  show ?case
  proof (cases x rule: loop_cases)
    case pass
    then show ?thesis using Cons by (simp add: loop_Cons_pass del: capture_loop.simps)
  next
    case fail
    then show ?thesis by (simp add: loop_Cons_fail leaves_def del: capture_loop.simps)
  next
    case quit
    then show ?thesis by (simp add: loop_Cons_quit leaves_def del: capture_loop.simps)
  qed
qed

lemma pass_events_loop: "e \<in> set (pass_events u g s t0 x) \<Longrightarrow> loop_event e"
  by (auto simp: pass_events_def split: read_result.splits)

lemma loop_events: "e \<in> set (fst (capture_loop u g s t0 xs)) \<Longrightarrow> loop_event e"
proof (induction xs)
  case Nil
  then show ?case by simp
next
  case (Cons x xs)
  show ?case
  proof (cases x rule: loop_cases)
    case pass
    then show ?thesis using Cons by (auto simp: loop_Cons_pass pass_events_loop simp del: capture_loop.simps)
  next
    case fail
    then show ?thesis using Cons.prems by (auto simp: loop_Cons_fail simp del: capture_loop.simps)
  next
    case quit
    then show ?thesis using Cons.prems by (auto simp: loop_Cons_quit pass_events_loop simp del: capture_loop.simps)
  qed
qed

text \<open>\<^verbatim>\<open>main\<close>, unfolded along its three ways out.\<close>

lemma main_usage:
  "length (argv E) < 3 \<Longrightarrow>
   main E = ([Usage (case argv E of [] \<Rightarrow> [] | a # _ \<Rightarrow> a)], Exited 1)"
  by (simp add: main_def)

lemma open_capture_snd: "snd (open_capture E b) = (if b then gst_open_ok E else v4l2_open_ok E)"
  by (simp add: open_capture_def)

lemma main_open_failed:
  "3 \<le> length (argv E) \<Longrightarrow> \<not> open_ok E \<Longrightarrow>
   main E = (fst (open_capture E (gstreamer_flag E)) @ [CapRelease], Exited 1)"
  by (simp add: main_def parse_flags_set Let_def case_prod_beta open_capture_snd
      open_ok_def gstreamer_flag_def)

lemma main_session:
  "3 \<le> length (argv E) \<Longrightarrow> open_ok E \<Longrightarrow>
   main E =
     (let tr = fst (capture_loop (lround_unspec E) (gray_flag E) (image_scale E) (clock_t0 E) (script E));
          pre = fst (open_capture E (gstreamer_flag E)) @
                [SystemCreate (argv E ! 1) (argv E ! 2), GetImageScale, Banner] @ tr
      in if \<exists>x\<in>set (script E). leaves x
         then (pre @ [Shutdown, SaveKeyFrameTrajectoryTUM ''KeyFrameTrajectory.txt'', CapRelease], Exited 0)
         else (pre, Running))"
  by (simp add: main_def parse_flags_set Let_def case_prod_beta open_capture_snd
      open_ok_def gstreamer_flag_def gray_flag_def loop_left)

lemma open_capture_events:
  "e \<in> set (fst (open_capture E b)) \<Longrightarrow>
   e \<noteq> Shutdown \<and> e \<noteq> CapRelease \<and> \<not> is_export e \<and> \<not> is_create e \<and> \<not> loop_event e"
  by (auto simp: open_capture_def split: if_splits)


lemma loop_not_misc:
  "Shutdown \<notin> set (fst (capture_loop u g s t0 xs))"
  "CapRelease \<notin> set (fst (capture_loop u g s t0 xs))"
  "e \<in> set (fst (capture_loop u g s t0 xs)) \<Longrightarrow> \<not> is_export e"
  "e \<in> set (fst (capture_loop u g s t0 xs)) \<Longrightarrow> \<not> is_create e"
  "e \<in> set (fst (capture_loop u g s t0 xs)) \<Longrightarrow> \<not> is_open e"
  using loop_events [of _ u g s t0 xs] by (fastforce elim: loop_event.elims)+

text \<open>
  Claim C10. An argument after the two positional paths that is neither \<^verbatim>\<open>--gray\<close>
  nor \<^verbatim>\<open>--gstreamer\<close> is ignored: the run with it is the run without it (same
  trace, same exit status), and the flags resolved are the same.
\<close>

theorem unknown_argument_ignored:
  assumes "3 \<le> length a" and "x \<noteq> ''--gray''" and "x \<noteq> ''--gstreamer''"
  shows "main (E\<lparr>argv := a @ x # b\<rparr>) = main (E\<lparr>argv := a @ b\<rparr>) \<and>
         parse_flags (drop 3 (a @ x # b)) (False, False) = parse_flags (drop 3 (a @ b)) (False, False)"
proof -
  have flags: "parse_flags (drop 3 (a @ x # b)) (False, False)
             = parse_flags (drop 3 (a @ b)) (False, False)"
    using assms by (auto simp: parse_flags_set)
  have paths: "(a @ x # b) ! 1 = (a @ b) ! 1" "(a @ x # b) ! 2 = (a @ b) ! 2"
    using assms(1) by (simp_all add: nth_append)
  have "open_capture (E\<lparr>argv := a @ x # b\<rparr>) u = open_capture (E\<lparr>argv := a @ b\<rparr>) u" for u
    by (simp add: open_capture_def)
  then have "main (E\<lparr>argv := a @ x # b\<rparr>) = main (E\<lparr>argv := a @ b\<rparr>)"
    using assms(1) flags paths by (simp add: main_def Let_def case_prod_beta)
  with flags show ?thesis by simp
qed

theorem unknown_argument_ignored_witness:
  "main (demo_env\<lparr>argv := [''mono_live'', ''ORBvoc.txt'', ''Settings.yaml''] @ ''--fast'' # [''--gray'']\<rparr>)
   = main (demo_env\<lparr>argv := [''mono_live'', ''ORBvoc.txt'', ''Settings.yaml''] @ [''--gray'']\<rparr>)"
  using unknown_argument_ignored
    [where a = "[''mono_live'', ''ORBvoc.txt'', ''Settings.yaml'']" and x = "''--fast''"
       and E = demo_env and b = "[''--gray'']"]
  by simp

text \<open>
  Claim C5. With fewer than two positional arguments the process exits with code 1.
  When the open of the selected backend fails it exits with code 1, and the engine is
  neither created nor shut down.
\<close>

theorem early_exit_code_1:
  "(length (argv E) < 3 \<longrightarrow> snd (main E) = Exited 1) \<and>
   (3 \<le> length (argv E) \<and> \<not> open_ok E \<longrightarrow>
      snd (main E) = Exited 1 \<and> (\<forall>e\<in>set (fst (main E)). \<not> is_create e \<and> e \<noteq> Shutdown))"
  using open_capture_events [of _ E "gstreamer_flag E"]
  by (auto simp: main_usage main_open_failed)

theorem early_exit_code_1_witness:
  "length (argv (demo_env\<lparr>argv := [''mono_live'', ''ORBvoc.txt'']\<rparr>)) < 3 \<and>
   snd (main (demo_env\<lparr>argv := [''mono_live'', ''ORBvoc.txt'']\<rparr>)) = Exited 1 \<and>
   3 \<le> length (argv (demo_env\<lparr>v4l2_open_ok := False\<rparr>)) \<and>
   \<not> open_ok (demo_env\<lparr>v4l2_open_ok := False\<rparr>) \<and>
   main (demo_env\<lparr>v4l2_open_ok := False\<rparr>) = ([OpenV4L2 0, ErrOpenV4L2, CapRelease], Exited 1)"
proof -
  have a: "length (argv (demo_env\<lparr>argv := [''mono_live'', ''ORBvoc.txt'']\<rparr>)) < 3"
    by simp
  have b: "3 \<le> length (argv (demo_env\<lparr>v4l2_open_ok := False\<rparr>))"
          "\<not> open_ok (demo_env\<lparr>v4l2_open_ok := False\<rparr>)"
    by (simp_all add: demo_env_def open_ok_def gstreamer_flag_def)
  have c: "main (demo_env\<lparr>v4l2_open_ok := False\<rparr>) = ([OpenV4L2 0, ErrOpenV4L2, CapRelease], Exited 1)"
    by (simp add: demo_env_def main_def open_capture_def)
  show ?thesis
    using a b c early_exit_code_1 [of "demo_env\<lparr>argv := [''mono_live'', ''ORBvoc.txt'']\<rparr>"]
      early_exit_code_1 [of "demo_env\<lparr>v4l2_open_ok := False\<rparr>"]
    by simp
qed

text \<open>
  Claim C4. With \<^verbatim>\<open>--gstreamer\<close> no open of the direct device is attempted, without
  it no open of the pipeline, and no run attempts more than one open, whether the open
  succeeds or fails.
\<close>

theorem backend_exclusive:
  "(gstreamer_flag E \<longrightarrow> (\<forall>i. OpenV4L2 i \<notin> set (fst (main E)))) \<and>
   (\<not> gstreamer_flag E \<longrightarrow> (\<forall>p. OpenGStreamer p \<notin> set (fst (main E)))) \<and>
   length (filter is_open (fst (main E))) \<le> 1"
proof -
  let ?tr = "fst (capture_loop (lround_unspec E) (gray_flag E) (image_scale E) (clock_t0 E) (script E))"
  have no_open: "\<not> is_open e" if "e \<in> set ?tr" for e
    using that by (rule loop_not_misc)
  then have none: "filter is_open ?tr = []" "OpenV4L2 i \<notin> set ?tr" "OpenGStreamer p \<notin> set ?tr" for i p
    using no_open [of "OpenV4L2 i"] no_open [of "OpenGStreamer p"] by (auto simp: filter_empty_conv)
  consider (usage) "length (argv E) < 3"
    | (failed) "3 \<le> length (argv E)" "\<not> open_ok E"
    | (session) "3 \<le> length (argv E)" "open_ok E"
    by linarith
  then show ?thesis
  proof cases
    case usage
    then show ?thesis by (simp add: main_usage)
  next
    case failed
    then show ?thesis by (simp add: main_open_failed open_capture_def)
  next
    case session
    then show ?thesis by (simp add: main_session open_capture_def Let_def none)
  qed
qed

theorem backend_exclusive_witness:
  "gstreamer_flag (demo_env\<lparr>argv := argv demo_env @ [''--gstreamer'']\<rparr>) \<and>
   fst (main (demo_env\<lparr>argv := argv demo_env @ [''--gstreamer'']\<rparr>)) =
     [OpenGStreamer pipeline, ErrOpenGStreamer, CapRelease] \<and>
   (\<forall>i. OpenV4L2 i \<notin> set (fst (main (demo_env\<lparr>argv := argv demo_env @ [''--gstreamer'']\<rparr>)))) \<and>
   \<not> gstreamer_flag (demo_env\<lparr>v4l2_open_ok := False, gst_open_ok := True\<rparr>) \<and>
   fst (main (demo_env\<lparr>v4l2_open_ok := False, gst_open_ok := True\<rparr>)) =
     [OpenV4L2 0, ErrOpenV4L2, CapRelease] \<and>
   (\<forall>p. OpenGStreamer p \<notin> set (fst (main (demo_env\<lparr>v4l2_open_ok := False, gst_open_ok := True\<rparr>))))"
proof -
  have a: "gstreamer_flag (demo_env\<lparr>argv := argv demo_env @ [''--gstreamer'']\<rparr>)"
          "\<not> gstreamer_flag (demo_env\<lparr>v4l2_open_ok := False, gst_open_ok := True\<rparr>)"
    by (simp_all add: demo_env_def gstreamer_flag_def)
  have b: "fst (main (demo_env\<lparr>argv := argv demo_env @ [''--gstreamer'']\<rparr>)) =
             [OpenGStreamer pipeline, ErrOpenGStreamer, CapRelease]"
          "fst (main (demo_env\<lparr>v4l2_open_ok := False, gst_open_ok := True\<rparr>)) =
             [OpenV4L2 0, ErrOpenV4L2, CapRelease]"
    by (simp_all add: demo_env_def main_def open_capture_def)
  show ?thesis
    using a b backend_exclusive [of "demo_env\<lparr>argv := argv demo_env @ [''--gstreamer'']\<rparr>"]
      backend_exclusive [of "demo_env\<lparr>v4l2_open_ok := False, gst_open_ok := True\<rparr>"]
    by simp
qed

lemma loop_prefix:
  "\<forall>p\<in>set pre. \<not> leaves p \<Longrightarrow>
   capture_loop u g s t0 (pre @ ys) =
     (concat (map (pass_events u g s t0) pre) @ fst (capture_loop u g s t0 ys),
      snd (capture_loop u g s t0 ys))"
  by (induction pre) (simp_all add: loop_Cons_pass del: capture_loop.simps)

lemma track_pass_events:
  "\<not> read_fails x \<Longrightarrow> length (filter is_track (pass_events u g s t0 x)) = 1"
  by (auto simp: pass_events_def read_fails_def split: read_result.splits)

lemma track_passes:
  "\<forall>p\<in>set pre. \<not> leaves p \<Longrightarrow>
   length (filter is_track (concat (map (pass_events u g s t0) pre))) = length pre"
  by (induction pre) (simp_all add: track_pass_events leaves_def)

lemma track_open_capture: "filter is_track (fst (open_capture E b)) = []"
  by (simp add: open_capture_def)

subsection \<open>The sample runs\<close>

lemma leaves_demo:
  "\<not> leaves (stim (ReadTrue frame_vga) t (- 1))" "leaves (stim ReadFalse t k)"
  "leaves (stim (ReadTrue frame_vga) t 113)" "read_fails (stim ReadFalse t k)"
  "\<not> read_fails (stim (ReadTrue frame_vga) t k)"
  by (simp_all add: leaves_def read_fails_def quit_key_def stim_def frame_vga_def frame_empty_def)

lemma demo_env_enters: "3 \<le> length (argv demo_env)" "open_ok demo_env"
  by (simp_all add: demo_env_def open_ok_def gstreamer_flag_def)

lemma quit_env_enters: "3 \<le> length (argv quit_env)" "open_ok quit_env"
  by (simp_all add: quit_env_def demo_env_def open_ok_def gstreamer_flag_def)

subsection \<open>The claims on the session\<close>

lemma count_loop:
  "count_list (fst (capture_loop u g s t0 xs)) Shutdown = 0"
  "count_list (fst (capture_loop u g s t0 xs)) CapRelease = 0"
  "filter is_export (fst (capture_loop u g s t0 xs)) = []"
  "filter is_create (fst (capture_loop u g s t0 xs)) = []"
  by (auto simp: count_list_0_iff filter_empty_conv loop_not_misc)

lemma count_open:
  "count_list (fst (open_capture E b)) Shutdown = 0"
  "count_list (fst (open_capture E b)) CapRelease = 0"
  "filter is_export (fst (open_capture E b)) = []"
  "filter is_create (fst (open_capture E b)) = []"
  "length (filter is_open (fst (open_capture E b))) = 1"
  by (simp_all add: open_capture_def)

text \<open>
  Claim C1. In a run that enters the loop and leaves it, whatever the cause (a read
  that fails, an empty frame, a quit key), the trace ends with the shutdown, then the
  trajectory export, then the release of the capture object, and neither a shutdown nor
  an export occurs before: each occurs exactly once, the shutdown first.
\<close>

theorem shutdown_then_export_once:
  assumes "3 \<le> length (argv E)" and "open_ok E" and "\<exists>x\<in>set (script E). leaves x"
  shows "(\<exists>pre. main E = (pre @ [Shutdown, SaveKeyFrameTrajectoryTUM ''KeyFrameTrajectory.txt'',
                                CapRelease], Exited 0) \<and>
               Shutdown \<notin> set pre \<and> (\<forall>e\<in>set pre. \<not> is_export e)) \<and>
         count_list (fst (main E)) Shutdown = 1 \<and>
         length (filter is_export (fst (main E))) = 1"
proof -
  let ?tr = "fst (capture_loop (lround_unspec E) (gray_flag E) (image_scale E) (clock_t0 E) (script E))"
  let ?pre = "fst (open_capture E (gstreamer_flag E)) @
              [SystemCreate (argv E ! 1) (argv E ! 2), GetImageScale, Banner] @ ?tr"
  have m: "main E = (?pre @ [Shutdown, SaveKeyFrameTrajectoryTUM ''KeyFrameTrajectory.txt'',
                          CapRelease], Exited 0)"
    using assms by (simp add: main_session Let_def)
  have a: "Shutdown \<notin> set ?pre"
    using open_capture_events [of Shutdown E "gstreamer_flag E"] by (auto simp: loop_not_misc)
  have b: "\<forall>e\<in>set ?pre. \<not> is_export e"
    using open_capture_events [of _ E "gstreamer_flag E"] by (auto simp: loop_not_misc)
  have c: "count_list (fst (main E)) Shutdown = 1" "length (filter is_export (fst (main E))) = 1"
    by (simp_all add: m count_loop count_open)
  from m a b have "\<exists>pre. main E = (pre @ [Shutdown, SaveKeyFrameTrajectoryTUM ''KeyFrameTrajectory.txt'',
                                CapRelease], Exited 0) \<and>
               Shutdown \<notin> set pre \<and> (\<forall>e\<in>set pre. \<not> is_export e)"
    by blast
  with c show ?thesis by simp
qed

theorem shutdown_then_export_once_witness:
  "3 \<le> length (argv demo_env) \<and> open_ok demo_env \<and> leaves (stim ReadFalse 1050 (- 1)) \<and>
   snd (main demo_env) = Exited 0 \<and>
   count_list (fst (main demo_env)) Shutdown = 1 \<and>
   length (filter is_export (fst (main demo_env))) = 1 \<and>
   3 \<le> length (argv quit_env) \<and> open_ok quit_env \<and> leaves (stim (ReadTrue frame_vga) 1020 113) \<and>
   snd (main quit_env) = Exited 0 \<and>
   count_list (fst (main quit_env)) Shutdown = 1 \<and>
   length (filter is_export (fst (main quit_env))) = 1"
proof -
  have d: "\<exists>x\<in>set (script demo_env). leaves x"
    by (simp add: demo_env_def leaves_demo)
  have q: "\<exists>x\<in>set (script quit_env). leaves x"
    by (simp add: quit_env_def leaves_demo)
  note rd = shutdown_then_export_once [OF demo_env_enters d]
  note rq = shutdown_then_export_once [OF quit_env_enters q]
  have "snd (main demo_env) = Exited 0" "snd (main quit_env) = Exited 0"
    using rd [THEN conjunct1] rq [THEN conjunct1] by auto
  then show ?thesis
    using rd [THEN conjunct2] rq [THEN conjunct2] demo_env_enters quit_env_enters
    by (simp add: leaves_demo)
qed

text \<open>
  Claim C6. When, after passes that did not leave the loop, a read fails or yields an
  empty frame, nothing more is fed: the message is followed at once by the shutdown and
  the export, the exit code is 0, and the frames fed are those of the earlier passes.
\<close>

theorem read_failure_is_graceful:
  assumes "3 \<le> length (argv E)" and "open_ok E"
    and "script E = pre @ x # rest" and "\<forall>p\<in>set pre. \<not> leaves p" and "read_fails x"
  shows "main E =
           (fst (open_capture E (gstreamer_flag E)) @
            [SystemCreate (argv E ! 1) (argv E ! 2), GetImageScale, Banner] @
            concat (map (pass_events (lround_unspec E) (gray_flag E) (image_scale E) (clock_t0 E)) pre) @
            [Read (st_read x), ErrGrab, Shutdown,
             SaveKeyFrameTrajectoryTUM ''KeyFrameTrajectory.txt'', CapRelease], Exited 0) \<and>
         length (filter is_track (fst (main E))) = length pre"
proof -
  have left: "\<exists>y\<in>set (script E). leaves y"
    using assms(3,5) by (auto simp: leaves_def)
  have loop: "fst (capture_loop (lround_unspec E) (gray_flag E) (image_scale E) (clock_t0 E) (script E)) =
        concat (map (pass_events (lround_unspec E) (gray_flag E) (image_scale E) (clock_t0 E)) pre) @
        [Read (st_read x), ErrGrab]"
    using assms(3,4,5) by (simp add: loop_prefix loop_Cons_fail del: capture_loop.simps)
  have m: "main E =
           (fst (open_capture E (gstreamer_flag E)) @
            [SystemCreate (argv E ! 1) (argv E ! 2), GetImageScale, Banner] @
            concat (map (pass_events (lround_unspec E) (gray_flag E) (image_scale E) (clock_t0 E)) pre) @
            [Read (st_read x), ErrGrab, Shutdown,
             SaveKeyFrameTrajectoryTUM ''KeyFrameTrajectory.txt'', CapRelease], Exited 0)"
    using assms(1,2) left by (simp add: main_session Let_def loop)
  have "length (filter is_track (fst (main E))) = length pre"
    using assms(4) by (simp add: m track_open_capture track_passes)
  with m show ?thesis by simp
qed


theorem read_failure_is_graceful_witness:
  "snd (main demo_env) = Exited 0 \<and> length (filter is_track (fst (main demo_env))) = 4"
proof -
  let ?pre = "[stim (ReadTrue frame_vga) 1010 (- 1), stim (ReadTrue frame_vga) 1020 (- 1),
               stim (ReadTrue frame_vga) 1030 (- 1), stim (ReadTrue frame_vga) 1040 (- 1)]"
  have sc: "script demo_env = ?pre @ stim ReadFalse 1050 (- 1) # [stim (ReadTrue frame_vga) 1060 (- 1)]"
    by (simp add: demo_env_def)
  have nl: "\<forall>p\<in>set ?pre. \<not> leaves p"
    by (simp add: leaves_demo)
  have rf: "read_fails (stim ReadFalse 1050 (- 1))"
    by (rule leaves_demo)
  note r = read_failure_is_graceful [OF demo_env_enters sc nl rf]
  have "snd (main demo_env) = Exited 0"
    by (simp add: r [THEN conjunct1])
  moreover have "length (filter is_track (fst (main demo_env))) = 4"
    using r [THEN conjunct2] by simp
  ultimately show ?thesis by simp
qed

lemma monitor_pass:
  "\<not> read_fails x \<Longrightarrow>
   fed_before_poll b (pass_events u g s t0 x @ es) = fed_before_poll False es"
  by (auto simp: pass_events_def read_fails_def split: read_result.splits)

lemma monitor_loop:
  "(\<And>c. fed_before_poll c es) \<Longrightarrow> fed_before_poll b (fst (capture_loop u g s t0 xs) @ es)"
proof (induction xs arbitrary: b)
  case Nil
  then show ?case by simp
next
  case (Cons x xs)
  show ?case
  proof (cases x rule: loop_cases)
    case fail
    then show ?thesis using Cons.prems by (simp add: loop_Cons_fail del: capture_loop.simps)
  next
    case quit
    then show ?thesis using Cons.prems by (simp add: loop_Cons_quit monitor_pass del: capture_loop.simps)
  next
    case pass
    then have "\<not> read_fails x" by (simp add: leaves_def)
    then show ?thesis
      using pass Cons.IH [OF Cons.prems] by (simp add: loop_Cons_pass monitor_pass del: capture_loop.simps)
  qed
qed

lemma monitor_open: "fed_before_poll b (fst (open_capture E g) @ es) = fed_before_poll b es"
  by (simp add: open_capture_def)

lemma monitor_main: "fed_before_poll False (fst (main E))"
proof -
  consider (usage) "length (argv E) < 3"
    | (failed) "3 \<le> length (argv E)" "\<not> open_ok E"
    | (session) "3 \<le> length (argv E)" "open_ok E"
    by linarith
  then show ?thesis
  proof cases
    case usage
    then show ?thesis by (simp add: main_usage)
  next
    case failed
    then show ?thesis by (simp add: main_open_failed monitor_open)
  next
    case session
    have a: "fed_before_poll False
        (fst (capture_loop (lround_unspec E) (gray_flag E) (image_scale E) (clock_t0 E) (script E)) @ es)"
      if "\<And>c. fed_before_poll c es" for es
      using that by (rule monitor_loop)
    show ?thesis
      using session a [of "[]"] a [of "[Shutdown, SaveKeyFrameTrajectoryTUM ''KeyFrameTrajectory.txt'', CapRelease]"]
      by (simp add: main_session Let_def monitor_open)
  qed
qed

text \<open>
  Claim C9. In every trace each poll of the key comes after a frame fed since the poll
  before. When a pass sees the quit key, the frame read in that pass has been
  preprocessed and fed before the poll, and the shutdown follows: the frames fed are
  those of the earlier passes and this one.
\<close>

theorem frame_fed_before_poll:
  "fed_before_poll False (fst (main E)) \<and>
   (3 \<le> length (argv E) \<and> open_ok E \<and> script E = pre @ x # rest \<and> (\<forall>p\<in>set pre. \<not> leaves p) \<and>
    st_read x = ReadTrue f \<and> \<not> frame_empty f \<and> quit_key (st_key x) \<longrightarrow>
      (\<exists>before. fst (main E) =
         before @ [Read (ReadTrue f),
                   TrackMonocular (preprocess (lround_unspec E) (gray_flag E) (image_scale E) f)
                     (st_now x - clock_t0 E),
                   Imshow f, WaitKey (st_key x), Shutdown,
                   SaveKeyFrameTrajectoryTUM ''KeyFrameTrajectory.txt'', CapRelease]) \<and>
      length (filter is_track (fst (main E))) = length pre + 1)"
proof (intro conjI impI)
  show "fed_before_poll False (fst (main E))" by (rule monitor_main)
next
  assume h: "3 \<le> length (argv E) \<and> open_ok E \<and> script E = pre @ x # rest \<and>
    (\<forall>p\<in>set pre. \<not> leaves p) \<and> st_read x = ReadTrue f \<and> \<not> frame_empty f \<and> quit_key (st_key x)"
  let ?P = "pass_events (lround_unspec E) (gray_flag E) (image_scale E) (clock_t0 E)"
  from h have nf: "\<not> read_fails x" by (simp add: read_fails_def)
  from h have left: "\<exists>y\<in>set (script E). leaves y" by (auto simp: leaves_def)
  have loop: "fst (capture_loop (lround_unspec E) (gray_flag E) (image_scale E) (clock_t0 E) (pre @ x # rest)) =
        concat (map ?P pre) @ ?P x"
    using h nf by (simp add: loop_prefix loop_Cons_quit del: capture_loop.simps)
  have px: "?P x = [Read (ReadTrue f),
                   TrackMonocular (preprocess (lround_unspec E) (gray_flag E) (image_scale E) f)
                     (st_now x - clock_t0 E), Imshow f, WaitKey (st_key x)]"
    using h by (simp add: pass_events_def)
  have m: "fst (main E) =
           (fst (open_capture E (gstreamer_flag E)) @
            [SystemCreate (argv E ! 1) (argv E ! 2), GetImageScale, Banner] @ concat (map ?P pre)) @
           ?P x @ [Shutdown, SaveKeyFrameTrajectoryTUM ''KeyFrameTrajectory.txt'', CapRelease]"
    using h left by (simp add: main_session Let_def loop)
  show "\<exists>before. fst (main E) =
         before @ [Read (ReadTrue f),
                   TrackMonocular (preprocess (lround_unspec E) (gray_flag E) (image_scale E) f)
                     (st_now x - clock_t0 E),
                   Imshow f, WaitKey (st_key x), Shutdown,
                   SaveKeyFrameTrajectoryTUM ''KeyFrameTrajectory.txt'', CapRelease]"
    using m unfolding px by auto
  show "length (filter is_track (fst (main E))) = length pre + 1"
    using h nf by (simp add: m track_open_capture track_passes track_pass_events del: append_assoc)
qed


theorem frame_fed_before_poll_witness:
  "fed_before_poll False (fst (main quit_env)) \<and>
   quit_key (st_key (stim (ReadTrue frame_vga) 1020 113)) \<and>
   (\<exists>before. fst (main quit_env) =
      before @ [Read (ReadTrue frame_vga),
                TrackMonocular \<lparr>cols = 320, rows = 240, channels = 3\<rparr> 20,
                Imshow frame_vga, WaitKey 113, Shutdown,
                SaveKeyFrameTrajectoryTUM ''KeyFrameTrajectory.txt'', CapRelease]) \<and>
   length (filter is_track (fst (main quit_env))) = 2"
proof -
  let ?x = "stim (ReadTrue frame_vga) 1020 113"
  have q: "quit_key (st_key ?x)"
    by (simp add: stim_def quit_key_def)
  have h: "3 \<le> length (argv quit_env) \<and> open_ok quit_env \<and>
        script quit_env = [stim (ReadTrue frame_vga) 1010 (- 1)] @ ?x # [stim (ReadTrue frame_vga) 1030 (- 1)] \<and>
        (\<forall>p\<in>set [stim (ReadTrue frame_vga) 1010 (- 1)]. \<not> leaves p) \<and>
        st_read ?x = ReadTrue frame_vga \<and> \<not> frame_empty frame_vga \<and> quit_key (st_key ?x)"
    using q by (simp add: quit_env_enters leaves_demo) (simp add: quit_env_def stim_def frame_vga_def frame_empty_def)
  have p: "preprocess (lround_unspec quit_env) (gray_flag quit_env) (image_scale quit_env) frame_vga
         = \<lparr>cols = 320, rows = 240, channels = 3\<rparr>"
    by code_simp
  have t: "st_now ?x - clock_t0 quit_env = 20" "st_key ?x = 113"
    by (simp_all add: stim_def quit_env_def demo_env_def)
  note r = frame_fed_before_poll [of quit_env "[stim (ReadTrue frame_vga) 1010 (- 1)]" ?x
      "[stim (ReadTrue frame_vga) 1030 (- 1)]" frame_vga]
  show ?thesis
    using q r [THEN conjunct1] r [THEN conjunct2, rule_format, OF h] unfolding p t by simp
qed

lemma timestamps_append: "timestamps (xs @ ys) = timestamps xs @ timestamps ys"
  by (induction xs rule: timestamps.induct) simp_all

lemma timestamps_pass:
  "\<not> read_fails x \<Longrightarrow> timestamps (pass_events u g s t0 x) = [st_now x - t0]"
  by (auto simp: pass_events_def read_fails_def split: read_result.splits)

lemma timestamps_open: "timestamps (fst (open_capture E b)) = []"
  by (simp add: open_capture_def)

lemma timestamps_loop_from:
  "t \<in> set (timestamps (fst (capture_loop u g s t0 xs))) \<Longrightarrow> \<exists>x\<in>set xs. t = st_now x - t0"
proof (induction xs)
  case Nil
  then show ?case by simp
next
  case (Cons x xs)
  show ?case
  proof (cases x rule: loop_cases)
    case fail
    then show ?thesis using Cons.prems by (simp add: loop_Cons_fail del: capture_loop.simps)
  next
    case quit
    then show ?thesis
      using Cons.prems by (simp add: loop_Cons_quit timestamps_pass del: capture_loop.simps)
  next
    case pass
    then have "\<not> read_fails x" by (simp add: leaves_def)
    then show ?thesis
      using pass Cons by (auto simp: loop_Cons_pass timestamps_pass timestamps_append simp del: capture_loop.simps)
  qed
qed

lemma timestamps_loop_sorted:
  "sorted (map st_now xs) \<Longrightarrow> sorted (timestamps (fst (capture_loop u g s t0 xs)))"
proof (induction xs)
  case Nil
  then show ?case by simp
next
  case (Cons x xs)
  show ?case
  proof (cases x rule: loop_cases)
    case fail
    then show ?thesis by (simp add: loop_Cons_fail del: capture_loop.simps)
  next
    case quit
    then show ?thesis by (simp add: loop_Cons_quit timestamps_pass del: capture_loop.simps)
  next
    case pass
    then have nf: "\<not> read_fails x" by (simp add: leaves_def)
    have later: "st_now x - t0 \<le> t" if "t \<in> set (timestamps (fst (capture_loop u g s t0 xs)))" for t
    proof -
      from that obtain y where "y \<in> set xs" "t = st_now y - t0"
        using timestamps_loop_from by blast
      then show ?thesis using Cons.prems by auto
    qed
    from Cons have "sorted (timestamps (fst (capture_loop u g s t0 xs)))" by simp
    then show ?thesis
      using pass nf later
      by (simp add: loop_Cons_pass timestamps_pass timestamps_append del: capture_loop.simps)
  qed
qed

text \<open>
  Claim C3. The timestamp of a frame is the reading of the clock after the read, minus
  the reading at the start of the loop (in ticks; the conversion to seconds as a
  \<^verbatim>\<open>double\<close> keeps the order). With a clock that never goes back, the timestamps
  fed to the engine never decrease.
\<close>

theorem timestamps_nondecreasing:
  "sorted (map st_now (script E)) \<Longrightarrow> sorted (timestamps (fst (main E)))"
proof -
  assume mono: "sorted (map st_now (script E))"
  consider (usage) "length (argv E) < 3"
    | (failed) "3 \<le> length (argv E)" "\<not> open_ok E"
    | (session) "3 \<le> length (argv E)" "open_ok E"
    by linarith
  then show ?thesis
  proof cases
    case usage
    then show ?thesis by (simp add: main_usage)
  next
    case failed
    then show ?thesis by (simp add: main_open_failed timestamps_append timestamps_open)
  next
    case session
    then show ?thesis
      using timestamps_loop_sorted [OF mono]
      by (simp add: main_session Let_def timestamps_append timestamps_open)
  qed
qed

theorem timestamps_nondecreasing_witness:
  "sorted (map st_now (script demo_env)) \<and> timestamps (fst (main demo_env)) = [10, 20, 30, 40] \<and>
   sorted (timestamps (fst (main demo_env)))"
proof -
  have a: "sorted (map st_now (script demo_env))"
    by (simp add: demo_env_def stim_def)
  have b: "timestamps (fst (main demo_env)) = [10, 20, 30, 40]"
    by code_simp
  show ?thesis
    using a b timestamps_nondecreasing [OF a] by simp
qed

lemma channels_preprocess:
  "channels (preprocess u g s f) = (if g then 1 else channels f)"
  by (simp add: preprocess_def rescale_def to_gray_def resize_def cvtColor_BGR2GRAY_def Let_def)

lemma track_pass_from:
  "TrackMonocular p t \<in> set (pass_events u g s t0 x) \<Longrightarrow>
   \<exists>f. Read (ReadTrue f) \<in> set (pass_events u g s t0 x) \<and> p = preprocess u g s f"
  by (auto simp: pass_events_def split: read_result.splits)

lemma track_loop_from:
  "TrackMonocular p t \<in> set (fst (capture_loop u g s t0 xs)) \<Longrightarrow>
   \<exists>f. Read (ReadTrue f) \<in> set (fst (capture_loop u g s t0 xs)) \<and> p = preprocess u g s f"
proof (induction xs)
  case Nil
  then show ?case by simp
next
  case (Cons x xs)
  show ?case
  proof (cases x rule: loop_cases)
    case fail
    then show ?thesis using Cons.prems by (simp add: loop_Cons_fail del: capture_loop.simps)
  next
    case quit
    then show ?thesis
      using Cons.prems track_pass_from [of p t u g s t0 x] by (simp add: loop_Cons_quit del: capture_loop.simps)
  next
    case pass
    then show ?thesis
      using Cons track_pass_from [of p t u g s t0 x]
      by (auto simp: loop_Cons_pass simp del: capture_loop.simps)
  qed
qed

text \<open>
  Claim C7. Every frame fed is the preprocessed form of a frame read in the same run:
  it has one channel with \<^verbatim>\<open>--gray\<close>, and the channels of the frame read without.
\<close>

theorem fed_channels:
  "TrackMonocular p t \<in> set (fst (main E)) \<Longrightarrow>
   \<exists>f. Read (ReadTrue f) \<in> set (fst (main E)) \<and>
       p = preprocess (lround_unspec E) (gray_flag E) (image_scale E) f \<and>
       channels p = (if gray_flag E then 1 else channels f)"
proof -
  assume fed: "TrackMonocular p t \<in> set (fst (main E))"
  let ?tr = "fst (capture_loop (lround_unspec E) (gray_flag E) (image_scale E) (clock_t0 E) (script E))"
  consider (usage) "length (argv E) < 3"
    | (failed) "3 \<le> length (argv E)" "\<not> open_ok E"
    | (session) "3 \<le> length (argv E)" "open_ok E"
    by linarith
  then show ?thesis
  proof cases
    case usage
    then show ?thesis using fed by (simp add: main_usage)
  next
    case failed
    then show ?thesis using fed by (auto simp: main_open_failed open_capture_def split: if_splits)
  next
    case session
    then have "TrackMonocular p t \<in> set ?tr"
      using fed by (auto simp: main_session Let_def open_capture_def split: if_splits)
    then obtain f where f: "Read (ReadTrue f) \<in> set ?tr"
        "p = preprocess (lround_unspec E) (gray_flag E) (image_scale E) f"
      using track_loop_from by blast
    then have "Read (ReadTrue f) \<in> set (fst (main E))"
      using session by (simp add: main_session Let_def)
    with f show ?thesis by (auto simp: channels_preprocess)
  qed
qed

theorem fed_channels_witness:
  "TrackMonocular \<lparr>cols = 320, rows = 240, channels = 1\<rparr> 10 \<in> set (fst (main gray_env)) \<and>
   gray_flag gray_env \<and>
   channels \<lparr>cols = 320, rows = 240, channels = 1\<rparr> = (if gray_flag gray_env then 1 else 3) \<and>
   TrackMonocular \<lparr>cols = 320, rows = 240, channels = 3\<rparr> 10 \<in> set (fst (main demo_env)) \<and>
   \<not> gray_flag demo_env \<and>
   (\<exists>f. Read (ReadTrue f) \<in> set (fst (main demo_env)) \<and>
        \<lparr>cols = 320, rows = 240, channels = 3\<rparr> =
          preprocess (lround_unspec demo_env) (gray_flag demo_env) (image_scale demo_env) f \<and>
        channels \<lparr>cols = 320, rows = 240, channels = 3\<rparr> =
          (if gray_flag demo_env then 1 else channels f))"
proof -
  have a: "TrackMonocular \<lparr>cols = 320, rows = 240, channels = 1\<rparr> 10 \<in> set (fst (main gray_env))"
    by code_simp
  have b: "TrackMonocular \<lparr>cols = 320, rows = 240, channels = 3\<rparr> 10 \<in> set (fst (main demo_env))"
    by code_simp
  have c: "gray_flag gray_env" "\<not> gray_flag demo_env"
    by (simp_all add: gray_env_def demo_env_def gray_flag_def)
  show ?thesis
    using a b c fed_channels [OF a] fed_channels [OF b] by simp
qed



subsection \<open>The rescale step\<close>

lemma bitlen_le: "n < 2 ^ k \<Longrightarrow> bitlen n \<le> k"
proof (induction k arbitrary: n)
  case 0
  then show ?case by (simp add: bitlen.simps [of n])
next
  case (Suc k)
  have "n div 2 < 2 ^ k" using Suc.prems by simp
  then have "bitlen (n div 2) \<le> k" by (rule Suc.IH)
  then show ?case by (simp add: bitlen.simps [of n])
qed

lemma f32_round_exact:
  assumes "\<bar>m\<bar> < 2 ^ 24" and "e \<le> 104"
  shows "f32_round m e = Finite m e"
proof -
  have k: "bitlen \<bar>m\<bar> \<le> 24" using assms(1) by (rule bitlen_le)
  have "\<bar>m\<bar> * 2 ^ nat e < 2 ^ 128" if "0 \<le> e"
  proof -
    have "(2::int) ^ nat e \<le> 2 ^ 104" using assms(2) that by (intro power_increasing) auto
    then have "\<bar>m\<bar> * 2 ^ nat e \<le> \<bar>m\<bar> * 2 ^ 104" by (intro mult_left_mono) auto
    also have "\<dots> < 2 ^ 24 * 2 ^ 104" using assms(1) by (intro mult_strict_right_mono) auto
    finally show ?thesis by simp
  qed
  then show ?thesis using k by (auto simp: f32_round_def Let_def)
qed

lemma f32_mul_exact:
  assumes "0 < n" and "0 < m" and "n * m < 2 ^ 24" and "e \<le> 104"
  shows "f32_mul (f32_of_int n) (Finite m e) = Finite (n * m) e"
proof -
  have "n * 1 \<le> n * m" using assms(1,2) by (intro mult_left_mono) auto
  then have "n \<le> n * m" by simp
  then have "\<bar>n\<bar> < 2 ^ 24" using assms(1,3) by linarith
  then have "f32_of_int n = Finite n 0" by (simp add: f32_of_int_def f32_round_exact)
  moreover have "\<bar>n * m\<bar> < 2 ^ 24" using assms(1,2,3) by (simp add: abs_mult)
  ultimately show ?thesis using assms(4) by (simp add: f32_round_exact)
qed

lemma round_nearest_of_int: "round_nearest (of_int n) = n"
  by (simp add: round_nearest_def) linarith

lemma round_half_div:
  fixes M d :: int
  assumes "0 \<le> M" and "0 < d"
  shows "(2 * M + d) div (2 * d) = M div d + (if d \<le> 2 * (M mod d) then 1 else 0)"
proof -
  define q r where "q = M div d" and "r = M mod d"
  have M: "M = d * q + r" by (simp add: q_def r_def)
  have r: "0 \<le> r" "r < d" using assms(2) by (simp_all add: r_def)
  show ?thesis
  proof (cases "d \<le> 2 * r")
    case True
    have "2 * M + d = 2 * d * (q + 1) + (2 * r - d)" by (simp add: M algebra_simps)
    then have "(2 * M + d) div (2 * d) = q + 1"
      using True r by (intro int_div_pos_eq [where r = "2 * r - d"]) auto
    then show ?thesis using True by (simp add: q_def r_def)
  next
    case False
    have "2 * M + d = 2 * d * q + (2 * r + d)" by (simp add: M algebra_simps)
    then have "(2 * M + d) div (2 * d) = q"
      using False r by (intro int_div_pos_eq [where r = "2 * r + d"]) auto
    then show ?thesis using False by (simp add: q_def r_def)
  qed
qed

lemma round_nearest_quotient:
  fixes M d :: int
  assumes "0 \<le> M" and "0 < d"
  shows "round_nearest (of_int M / of_int d) = M div d + (if d \<le> 2 * (M mod d) then 1 else 0)"
proof -
  have nn: "(0::rat) \<le> of_int M / of_int d" using assms by simp
  have "(of_int M / of_int d + 1 / 2 :: rat) = of_int (2 * M + d) / of_int (2 * d)"
    using assms(2) by (simp add: field_simps)
  then have "\<lfloor>of_int M / of_int d + 1 / 2 :: rat\<rfloor> = (2 * M + d) div (2 * d)"
    by (simp only: floor_divide_of_int_eq)
  then show ?thesis
    using nn round_half_div [OF assms] by (simp add: round_nearest_def)
qed

lemma lround_val:
  assumes "0 \<le> M" and "round_nearest (f32_val (Finite M e)) < 2 ^ 63"
  shows "lround u (Finite M e) = round_nearest (f32_val (Finite M e))"
proof (cases "0 \<le> e")
  case True
  have "f32_val (Finite M e) = of_int (M * 2 ^ nat e)" using True by simp
  then have v: "round_nearest (f32_val (Finite M e)) = M * 2 ^ nat e"
    by (simp only: round_nearest_of_int)
  have "0 \<le> M * 2 ^ nat e" using assms(1) by simp
  then show ?thesis using True assms(2) v by simp
next
  case False
  let ?d = "2 ^ nat (- e) :: int"
  have d: "0 < ?d" by simp
  have "f32_val (Finite M e) = of_int M / of_int ?d" using False by simp
  then have v: "round_nearest (f32_val (Finite M e)) = M div ?d + (if ?d \<le> 2 * (M mod ?d) then 1 else 0)"
    using round_nearest_quotient [OF assms(1) d] by simp
  have "0 \<le> M div ?d" using assms(1) by (simp add: pos_imp_zdiv_nonneg_iff)
  then have nn: "0 \<le> M div ?d + (if ?d \<le> 2 * (M mod ?d) then 1 else 0)" by simp
  show ?thesis
  proof (cases "M = 0")
    case True
    then show ?thesis using False unfolding v by (simp add: Let_def)
  next
    case nz: False
    then have "sgn M = 1" "\<bar>M\<bar> = M" using assms(1) by simp_all
    then show ?thesis using False assms(2) nn unfolding v by (auto simp: Let_def)
  qed
qed


lemma f32_val_scale:
  "f32_val (Finite (n * m) e) = of_int n * f32_val (Finite m e)"
  by simp

lemma f32_is_one_val: "f32_is_one (Finite m e) \<longleftrightarrow> f32_val (Finite m e) = 1"
proof (cases "0 \<le> e")
  case True
  have "of_int m * 2 ^ nat e = (1::rat) \<longleftrightarrow> (of_int (m * 2 ^ nat e) :: rat) = of_int 1"
    by simp
  also have "\<dots> \<longleftrightarrow> m * 2 ^ nat e = 1"
    by (simp only: of_int_eq_iff)
  finally show ?thesis using True by simp
next
  case False
  have "of_int m / 2 ^ nat (- e) = (1::rat) \<longleftrightarrow> (of_int m :: rat) = of_int (2 ^ nat (- e))"
    by (auto simp: field_simps)
  also have "\<dots> \<longleftrightarrow> m = 2 ^ nat (- e)"
    by (rule of_int_eq_iff)
  finally show ?thesis using False by auto
qed

lemma int_of_long_id: "0 \<le> v \<Longrightarrow> v < 2 ^ 31 \<Longrightarrow> int_of_long v = v"
  by (simp add: int_of_long_def)

lemma round_nearest_nonneg: "0 \<le> x \<Longrightarrow> 0 \<le> round_nearest x"
  by (simp add: round_nearest_def)

lemma f32_round_nonneg:
  assumes "0 \<le> M" and "f32_finite (f32_round M E)"
  obtains M' E' where "f32_round M E = Finite M' E'" and "0 \<le> M'"
proof (cases "bitlen \<bar>M\<bar> \<le> 24")
  case True
  then have "f32_round M E = Finite M E"
    using assms(2) by (auto simp: f32_round_def Let_def split: if_splits)
  then show ?thesis using assms(1) that by blast
next
  case False
  define sh where "sh = bitlen \<bar>M\<bar> - 24"
  define q where "q = \<bar>M\<bar> div 2 ^ sh"
  define q' where "q' = (if 2 ^ (sh - 1) < \<bar>M\<bar> mod 2 ^ sh \<or> (\<bar>M\<bar> mod 2 ^ sh = 2 ^ (sh - 1) \<and> odd q) then q + 1 else q)"
  have "0 \<le> q" by (simp add: q_def pos_imp_zdiv_nonneg_iff)
  then have "0 \<le> q'" by (simp add: q'_def)
  then have nn: "0 \<le> sgn M * q'" using assms(1) by (simp add: sgn_if)
  have "f32_round M E = Finite (sgn M * q') (E + int sh)"
    using False assms(2) by (auto simp: f32_round_def Let_def sh_def q_def q'_def split: if_splits)
  then show ?thesis using nn that by blast
qed

lemma scaled_dim_float:
  assumes "0 < m" and "0 < n" and "n < 2 ^ 24"
    and "f32_finite (f32_mul (f32_of_int n) (Finite m e))"
    and "round_nearest (f32_val (f32_mul (f32_of_int n) (Finite m e))) < 2 ^ 31"
  shows "scaled_dim u n (Finite m e) = round_nearest (f32_val (f32_mul (f32_of_int n) (Finite m e)))"
proof -
  have n: "f32_of_int n = Finite n 0"
    using assms(2,3) by (simp add: f32_of_int_def f32_round_exact)
  then have mul: "f32_mul (f32_of_int n) (Finite m e) = f32_round (n * m) e"
    by simp
  have "0 \<le> n * m" using assms(1,2) by simp
  then obtain M' E' where r: "f32_round (n * m) e = Finite M' E'" and M': "0 \<le> M'"
    using assms(4) unfolding mul by (rule f32_round_nonneg)
  let ?r = "round_nearest (f32_val (Finite M' E'))"
  have lt: "?r < 2 ^ 31" using assms(5) unfolding mul r .
  then have "?r < 2 ^ 63" by simp
  with M' have l: "lround u (Finite M' E') = ?r" by (rule lround_val)
  have "0 \<le> f32_val (Finite M' E')" using M' by simp
  then have "0 \<le> ?r" by (rule round_nearest_nonneg)
  then have "int_of_long ?r = ?r" using lt by (rule int_of_long_id)
  then show ?thesis
    unfolding scaled_dim_def mul r l .
qed

lemma scaled_dim_wraps: "scaled_dim u 640 (Finite 10000000 0) = 2105032704"
  by code_simp

text \<open>
  Claim C2, as stated, fails. The scale \<open>11883861 / 2 ^ 22\<close> (about 2.8333) is a
  single-precision number; three times it is just below 8.5 and rounds to 8, but the
  single-precision product is 8.5 exactly, which \<^verbatim>\<open>lround\<close> takes to 9: a frame of
  3 by 3 leaves the step as 9 by 9, not 8 by 8.
\<close>

theorem rescale_rounds_single_precision_product:
  "f32_wf (Finite 11883861 (- 22)) \<and> 0 < f32_val (Finite 11883861 (- 22)) \<and>
   round_nearest (3 * f32_val (Finite 11883861 (- 22))) = 8 \<and>
   spec_dims (Finite 11883861 (- 22)) \<lparr>cols = 3, rows = 3, channels = 3\<rparr> = (8, 8) \<and>
   cols (rescale unspec_zero (Finite 11883861 (- 22)) \<lparr>cols = 3, rows = 3, channels = 3\<rparr>) = 9 \<and>
   rows (rescale unspec_zero (Finite 11883861 (- 22)) \<lparr>cols = 3, rows = 3, channels = 3\<rparr>) = 9"
  by code_simp

text \<open>
  Claim C2, amended. For a finite scale \<open>s > 0\<close> and a frame of positive dimensions
  below \<open>2 ^ 24\<close>, where the single-precision products of the dimensions with \<open>s\<close>
  are finite and round to less than \<open>2 ^ 31\<close>: the frame is unchanged when \<open>s\<close> is
  1; otherwise, with \<open>W\<close> and \<open>H\<close> the single-precision products rounded to the nearest
  integer (halves away from zero), the output is \<open>W\<close> by \<open>H\<close> when both are
  positive and the frame unchanged if not. The channels stay. When the exact products
  are representable (dimension times significand below \<open>2 ^ 24\<close>), the output is the
  one the claim states.
\<close>

theorem rescale_dims:
  assumes "f32_wf (Finite m e)" and "0 < m"
    and "0 < cols p" and "cols p < 2 ^ 24" and "0 < rows p" and "rows p < 2 ^ 24"
    and "f32_finite (f32_mul (f32_of_int (cols p)) (Finite m e))"
    and "f32_finite (f32_mul (f32_of_int (rows p)) (Finite m e))"
    and "round_nearest (f32_val (f32_mul (f32_of_int (cols p)) (Finite m e))) < 2 ^ 31"
    and "round_nearest (f32_val (f32_mul (f32_of_int (rows p)) (Finite m e))) < 2 ^ 31"
  shows "(cols (rescale u (Finite m e) p), rows (rescale u (Finite m e) p)) =
           (if f32_is_one (Finite m e) then (cols p, rows p) else float_dims (Finite m e) p) \<and>
         channels (rescale u (Finite m e) p) = channels p \<and>
         (cols p * m < 2 ^ 24 \<and> rows p * m < 2 ^ 24 \<longrightarrow>
            (cols (rescale u (Finite m e) p), rows (rescale u (Finite m e) p)) =
              spec_dims (Finite m e) p)"
proof -
  let ?s = "Finite m e"
  let ?out = "(cols (rescale u ?s p), rows (rescale u ?s p))"
  have w: "scaled_dim u (cols p) ?s = round_nearest (f32_val (f32_mul (f32_of_int (cols p)) ?s))"
    using assms(2,3,4,7,9) by (rule scaled_dim_float)
  have h: "scaled_dim u (rows p) ?s = round_nearest (f32_val (f32_mul (f32_of_int (rows p)) ?s))"
    using assms(2,5,6,8,10) by (rule scaled_dim_float)
  have float: "?out = (if f32_is_one ?s then (cols p, rows p) else float_dims ?s p)"
    by (simp add: rescale_def float_dims_def w h resize_def Let_def
        del: f32_is_one.simps f32_val.simps f32_mul.simps)
  have chan: "channels (rescale u ?s p) = channels p"
    by (simp add: rescale_def resize_def Let_def del: f32_is_one.simps)
  have exact: "?out = spec_dims ?s p" if ex: "cols p * m < 2 ^ 24" "rows p * m < 2 ^ 24"
  proof (cases "f32_is_one ?s")
    case True
    then have "f32_val ?s = 1" by (simp only: f32_is_one_val)
    then have "spec_dims ?s p = (cols p, rows p)"
      by (simp add: spec_dims_def round_nearest_of_int del: f32_val.simps)
    then show ?thesis using True float by simp
  next
    case False
    have e: "e \<le> 104" using assms(1) by simp
    have "f32_mul (f32_of_int (cols p)) ?s = Finite (cols p * m) e"
         "f32_mul (f32_of_int (rows p)) ?s = Finite (rows p * m) e"
      using assms(2,3,5) ex e by (simp_all only: f32_mul_exact)
    then have "float_dims ?s p = spec_dims ?s p"
      by (simp only: float_dims_def spec_dims_def f32_val_scale)
    then show ?thesis using False float by simp
  qed
  from float chan exact show ?thesis by blast
qed

theorem rescale_dims_witness:
  "f32_wf (Finite 1 (- 1)) \<and> f32_val (Finite 1 (- 1)) = 1 / 2 \<and>
   float_dims (Finite 1 (- 1)) frame_vga = (320, 240) \<and>
   spec_dims (Finite 1 (- 1)) frame_vga = (320, 240) \<and>
   cols frame_vga * 1 < 2 ^ 24 \<and> rows frame_vga * 1 < 2 ^ 24 \<and>
   (cols (rescale unspec_zero (Finite 1 (- 1)) frame_vga),
    rows (rescale unspec_zero (Finite 1 (- 1)) frame_vga)) = (320, 240)"
proof -
  have a: "f32_wf (Finite 1 (- 1))" "(0::int) < 1" "0 < cols frame_vga" "cols frame_vga < 2 ^ 24"
    "0 < rows frame_vga" "rows frame_vga < 2 ^ 24"
    by (simp_all add: frame_vga_def)
  have b: "f32_finite (f32_mul (f32_of_int (cols frame_vga)) (Finite 1 (- 1)))"
    "f32_finite (f32_mul (f32_of_int (rows frame_vga)) (Finite 1 (- 1)))"
    by code_simp+
  have c: "round_nearest (f32_val (f32_mul (f32_of_int (cols frame_vga)) (Finite 1 (- 1)))) < 2 ^ 31"
    "round_nearest (f32_val (f32_mul (f32_of_int (rows frame_vga)) (Finite 1 (- 1)))) < 2 ^ 31"
    by code_simp+
  have d: "spec_dims (Finite 1 (- 1)) frame_vga = (320, 240)"
    "float_dims (Finite 1 (- 1)) frame_vga = (320, 240)"
    "f32_val (Finite 1 (- 1)) = 1 / 2"
    by code_simp+
  have e: "cols frame_vga * 1 < 2 ^ 24 \<and> rows frame_vga * 1 < 2 ^ 24"
    by (simp add: frame_vga_def)
  note r = rescale_dims [OF a b c, of unspec_zero]
  show ?thesis
    using a(1) d e r [THEN conjunct2, THEN conjunct2, rule_format, OF e] by simp
qed


end
